theory Spec2Isabelle
  imports Main "HOL-Library.Word"
begin

unbundle bit_operations_syntax

text \<open>
  The two functions of \<open>lcd.go\<close> that make up the directory index: \<open>generateDatabase\<close>
  walks the tree below a root and writes the snapshot file, \<open>searchDatabaseOptimized\<close>
  reads the snapshot and picks the best match for a search term.  Both are embedded as
  functions on the bytes of the file and on the answers of the operating system; the
  functions of the Go library that they call are modelled as their documentation
  describes them.
\<close>

section \<open>Strings, errors and the library functions used by lcd.go\<close>

text \<open>
  A Go string is a sequence of bytes; \<open>string\<close> (a list of 8-bit \<open>char\<close>) models it and
  \<open>length\<close> is Go's \<open>len\<close>.  A Go \<open>error\<close> is modelled by the message it carries;
  \<open>filepath.SkipDir\<close> is the one error value that the code compares by identity.
\<close>

datatype error = Err string | SkipDir

fun Error :: "error \<Rightarrow> string" where
  "Error (Err msg) = msg"
| "Error SkipDir = ''skip this directory''"

text \<open>
  \<open>strings.ToLower\<close>, on the ASCII range: the letters \<open>A\<close> .. \<open>Z\<close> are moved by
  \<open>'a' - 'A' = 32\<close>, every other byte is kept.  (For bytes outside ASCII the Go function
  applies the Unicode case mapping, which is not modelled: such bytes are kept as they are.)
\<close>

definition toLowerByte :: "char \<Rightarrow> char" where
  "toLowerByte c =
     (if 65 \<le> (of_char c :: nat) \<and> (of_char c :: nat) \<le> 90
      then char_of ((of_char c :: nat) + 32) else c)"

definition ToLower :: "string \<Rightarrow> string" where
  "ToLower s = map toLowerByte s"

text \<open>\<open>strings.LastIndexByte\<close>: the index of the last occurrence of \<open>c\<close> in \<open>s\<close>, or \<open>-1\<close>.\<close>

fun LastIndexByte :: "string \<Rightarrow> char \<Rightarrow> int" where
  "LastIndexByte [] c = -1"
| "LastIndexByte (x # xs) c =
     (let r = LastIndexByte xs c
      in if 0 \<le> r then r + 1 else if x = c then 0 else -1)"

text \<open>\<open>strings.HasPrefix\<close> and \<open>strings.Contains\<close>: \<open>substr\<close> occurs at some position of \<open>s\<close>.\<close>

definition HasPrefix :: "string \<Rightarrow> string \<Rightarrow> bool" where
  "HasPrefix s pre = (take (length pre) s = pre)"

fun Contains :: "string \<Rightarrow> string \<Rightarrow> bool" where
  "Contains [] substr = (substr = [])"
| "Contains (c # s) substr = (HasPrefix (c # s) substr \<or> Contains s substr)"

subsection \<open>bufio.Scanner with the default line splitter\<close>

text \<open>
  \<open>bufio.NewScanner\<close> splits its input with \<open>bufio.ScanLines\<close>: a token is the text up to
  the next newline, without the newline and without one trailing carriage return; empty
  lines are tokens; a last line without newline is a token when it is not empty.  A token
  must fit into the buffer, whose size is bounded by \<open>MaxScanTokenSize\<close>; scanning stops
  unrecoverably at the end of the input or at a line that does not fit, and \<open>Scan\<close>
  returns false from then on.  \<open>Scan_all\<close> is the list of the tokens that successive calls
  of \<open>Scan\<close> deliver.
\<close>

definition MaxScanTokenSize :: nat where
  "MaxScanTokenSize = 64 * 1024"

definition newline :: char where
  "newline = CHR 0x0A"

definition dropCR :: "string \<Rightarrow> string" where
  "dropCR data = (if data \<noteq> [] \<and> last data = CHR 0x0D then butlast data else data)"

function Scan_all :: "string \<Rightarrow> string list" where
  "Scan_all data =
     (if data = [] then []
      else let line = takeWhile (\<lambda>c. c \<noteq> newline) data
           in if MaxScanTokenSize \<le> length line then []
              else dropCR line # Scan_all (drop (Suc (length line)) data))"
  by pat_completeness auto
termination
  by (relation "measure length") auto

declare Scan_all.simps [simp del]

section \<open>The resolver: searchDatabaseOptimized\<close>

text \<open>
  The loop variables \<open>bestExact\<close>, \<open>bestExactLen\<close>, \<open>bestPartial\<close>, \<open>bestPartialLen\<close> of
  \<open>searchDatabaseOptimized\<close>.  The lengths are Go \<open>int\<close>s.
\<close>

record best =
  bestExact :: string
  bestExactLen :: int
  bestPartial :: string
  bestPartialLen :: int

text \<open>\<open>int(^uint(0) >> 1)\<close> on a 64-bit platform: the largest \<open>int\<close>.\<close>

definition maxInt :: int where
  "maxInt = uint (drop_bit 1 (NOT (0 :: 64 word)))"

definition init_best :: best where
  "init_best = \<lparr>bestExact = [], bestExactLen = maxInt, bestPartial = [], bestPartialLen = maxInt\<rparr>"

text \<open>Lines 275-279: the part of \<open>path\<close> after the last slash, or all of it.\<close>

definition name_of :: "string \<Rightarrow> string" where
  "name_of path =
     (let lastSlash = LastIndexByte path (CHR ''/'')
      in if 0 \<le> lastSlash then drop (nat (lastSlash + 1)) path else path)"

text \<open>One iteration of the loop of lines 272-298, for the line \<open>path\<close>.\<close>

definition loop_body :: "string \<Rightarrow> best \<Rightarrow> string \<Rightarrow> best" where
  "loop_body termLower st path =
     (let name = name_of path;
          nameLower = ToLower name;
          pathLen = int (length path)
      in if nameLower = termLower then
           (if pathLen < bestExactLen st
            then st\<lparr>bestExact := path, bestExactLen := pathLen\<rparr> else st)
         else if Contains nameLower termLower then
           (if pathLen < bestPartialLen st
            then st\<lparr>bestPartial := path, bestPartialLen := pathLen\<rparr> else st)
         else st)"

fun scan_loop :: "string \<Rightarrow> best \<Rightarrow> string list \<Rightarrow> best" where
  "scan_loop termLower st [] = st"
| "scan_loop termLower st (path # rest) = scan_loop termLower (loop_body termLower st path) rest"

text \<open>
  \<open>searchDatabaseOptimized\<close>.  The first argument is what \<open>os.Open(dbPath)\<close> and the reads
  give: an error, or the bytes of the file.  The result of the first \<open>Scan\<close> is ignored
  (the header is skipped); the loop runs over the tokens after it.
\<close>

definition searchDatabaseOptimized :: "error + string \<Rightarrow> string \<Rightarrow> error + string" where
  "searchDatabaseOptimized db term =
     (case db of
        Inl err \<Rightarrow> Inl (Err (''could not open database: '' @ Error err))
      | Inr content \<Rightarrow>
          (let st = scan_loop (ToLower term) init_best (drop 1 (Scan_all content))
           in if bestExact st \<noteq> [] then Inr (bestExact st)
              else if bestPartial st \<noteq> [] then Inr (bestPartial st)
              else Inl (Err (''directory not found: '' @ term))))"

section \<open>The indexer: generateDatabase\<close>

subsection \<open>The file system as filepath.WalkDir sees it\<close>

text \<open>
  A directory entry has a name and is a directory or not (\<open>fs.DirEntry\<close>).  For a
  directory, \<open>os.ReadDir\<close> gives its entries and possibly an error; an entry that is
  not a directory (a file, a symbolic link, a device) is a \<open>File\<close>.
\<close>

datatype dirent = File string | Dir string "dirent list" "error option"

fun Name :: "dirent \<Rightarrow> string" where
  "Name (File n) = n"
| "Name (Dir n dirs rerr) = n"

fun IsDir :: "dirent \<Rightarrow> bool" where
  "IsDir (File n) = False"
| "IsDir (Dir n dirs rerr) = True"

subsection \<open>filepath.Join\<close>

text \<open>
  \<open>filepath.Join\<close> on Unix: the non-empty elements are joined with a slash and the
  result is cleaned by \<open>filepath.Clean\<close> (empty and \<open>.\<close> elements are dropped, an
  inner \<open>..\<close> removes the element before it, a \<open>..\<close> at the start of a rooted path is
  dropped, the empty result is \<open>.\<close>).
\<close>

fun split_sep :: "string \<Rightarrow> string list" where
  "split_sep [] = [[]]"
| "split_sep (c # cs) =
     (if c = CHR ''/'' then [] # split_sep cs
      else (case split_sep cs of [] \<Rightarrow> [[c]] | e # es \<Rightarrow> (c # e) # es))"

fun join_sep :: "string list \<Rightarrow> string" where
  "join_sep [] = []"
| "join_sep [e] = e"
| "join_sep (e # es) = e @ CHR ''/'' # join_sep es"

fun clean_elems :: "bool \<Rightarrow> string list \<Rightarrow> string list \<Rightarrow> string list" where
  "clean_elems rooted out [] = rev out"
| "clean_elems rooted out (e # es) =
     (if e = [] \<or> e = ''.'' then clean_elems rooted out es
      else if e = ''..'' then
        (if out \<noteq> [] \<and> hd out \<noteq> ''..'' then clean_elems rooted (tl out) es
         else if rooted then clean_elems rooted out es
         else clean_elems rooted (''..'' # out) es)
      else clean_elems rooted (e # out) es)"

definition Clean :: "string \<Rightarrow> string" where
  "Clean path =
     (if path = [] then ''.''
      else let rooted = (hd path = CHR ''/'');
               out = join_sep (clean_elems rooted [] (split_sep path));
               res = (if rooted then CHR ''/'' # out else out)
           in if res = [] then ''.'' else res)"

definition Join :: "string \<Rightarrow> string \<Rightarrow> string" where
  "Join a b =
     (if a \<noteq> [] then Clean (a @ CHR ''/'' # b)
      else if b \<noteq> [] then Clean b
      else [])"

subsection \<open>filepath.WalkDir\<close>

text \<open>
  The walk threads a state \<open>'s\<close> through the calls of the callback.  The callback gets
  the path, the entry (absent when \<open>os.Lstat\<close> of the root failed) and an error, and
  returns an error or nil.  \<open>walkDir\<close> calls it for the entry first; for a directory it
  reads the entries, reports a read error by a second call, and walks the entries in
  order.  \<open>SkipDir\<close> returned for a directory skips it; returned for another entry it
  ends the loop over the entries of the parent.  Any other error ends the walk.
\<close>

type_synonym 's WalkDirFunc = "string \<Rightarrow> dirent option \<Rightarrow> error option \<Rightarrow> 's \<Rightarrow> error option \<times> 's"

fun walkDir :: "'s WalkDirFunc \<Rightarrow> string \<Rightarrow> dirent \<Rightarrow> 's \<Rightarrow> error option \<times> 's"
  and walkDirs :: "'s WalkDirFunc \<Rightarrow> string \<Rightarrow> dirent list \<Rightarrow> 's \<Rightarrow> error option \<times> 's"
where
  "walkDir fn path d w =
     (case fn path (Some d) None w of
        (Some err, w1) \<Rightarrow> (if err = SkipDir \<and> IsDir d then (None, w1) else (Some err, w1))
      | (None, w1) \<Rightarrow>
          (case d of
             File n \<Rightarrow> (None, w1)
           | Dir n dirs rerr \<Rightarrow>
               (case rerr of
                  Some e \<Rightarrow>
                    (case fn path (Some d) (Some e) w1 of
                       (Some err, w2) \<Rightarrow>
                         (if err = SkipDir \<and> IsDir d then (None, w2) else (Some err, w2))
                     | (None, w2) \<Rightarrow> walkDirs fn path dirs w2)
                | None \<Rightarrow> walkDirs fn path dirs w1)))"
| "walkDirs fn path [] w = (None, w)"
| "walkDirs fn path (d1 # ds) w =
     (case walkDir fn (Join path (Name d1)) d1 w of
        (Some err, w1) \<Rightarrow> (if err = SkipDir then (None, w1) else (Some err, w1))
      | (None, w1) \<Rightarrow> walkDirs fn path ds w1)"

definition WalkDir :: "'s WalkDirFunc \<Rightarrow> string \<Rightarrow> error + dirent \<Rightarrow> 's \<Rightarrow> error option \<times> 's" where
  "WalkDir fn root lstat w =
     (case (case lstat of
              Inl err \<Rightarrow> fn root None (Some err) w
            | Inr info \<Rightarrow> walkDir fn root info w) of
        (Some err, w1) \<Rightarrow> (if err = SkipDir then (None, w1) else (Some err, w1))
      | (None, w1) \<Rightarrow> (None, w1))"

subsection \<open>generateDatabase\<close>

text \<open>
  What the operating system answers during one call of \<open>generateDatabase\<close>: the error of
  \<open>os.Create(dbPath)\<close>, the error of the \<open>n\<close>-th call of \<open>writer.WriteString\<close> (counted
  from 0), the error of \<open>writer.Flush()\<close>, and the result of \<open>os.Lstat(baseDir)\<close>, which
  for a directory holds the tree below it.  The name of the root entry is the last element
  of \<open>baseDir\<close>.
\<close>

record io_env =
  create_err :: "error option"
  write_err :: "nat \<Rightarrow> error option"
  flush_err :: "error option"
  lstat_root :: "error + dirent"

text \<open>
  The buffered writer is the list of the strings written so far; the file holds their
  concatenation once \<open>Flush\<close> has succeeded.
\<close>

definition WriteString :: "(nat \<Rightarrow> error option) \<Rightarrow> string list \<Rightarrow> string \<Rightarrow> error + string list" where
  "WriteString werr w s = (case werr (length w) of Some e \<Rightarrow> Inl e | None \<Rightarrow> Inr (w @ [s]))"

text \<open>
  The callback of lines 225-245.  Go passes a nil entry only together with an error, and
  the callback returns before it looks at the entry then; a nil entry without an error
  would panic.
\<close>

definition walkFn :: "(nat \<Rightarrow> error option) \<Rightarrow> string list WalkDirFunc" where
  "walkFn werr path d err w =
     (if err \<noteq> None then (Some SkipDir, w)
      else case d of
        None \<Rightarrow> (Some (Err ''panic: nil pointer dereference''), w)
      | Some d \<Rightarrow>
          if IsDir d \<and> Name d = ''.git'' then (Some SkipDir, w)
          else if IsDir d then
            (case WriteString werr w (path @ [newline]) of
               Inl e \<Rightarrow> (Some e, w)
             | Inr w1 \<Rightarrow> (None, w1))
          else (None, w))"

text \<open>
  \<open>generateDatabase\<close> returns the error, or the content of the file at \<open>dbPath\<close> after
  the flush.
\<close>

definition generateDatabase :: "io_env \<Rightarrow> string \<Rightarrow> error + string" where
  "generateDatabase env baseDir =
     (case create_err env of
        Some err \<Rightarrow> Inl err
      | None \<Rightarrow>
          (case WriteString (write_err env) [] (baseDir @ [newline]) of
             Inl err \<Rightarrow> Inl err
           | Inr w \<Rightarrow>
               (case WalkDir (walkFn (write_err env)) baseDir (lstat_root env) w of
                  (Some err, w1) \<Rightarrow> Inl err
                | (None, w1) \<Rightarrow>
                    (case flush_err env of
                       Some err \<Rightarrow> Inl err
                     | None \<Rightarrow> Inr (concat w1)))))"

declare walkDir.simps [simp del]

section \<open>The words of the specification\<close>

subsection \<open>Base names and matching up to case\<close>

text \<open>
  The base name of a path is what follows its last separator, or the whole path.  Two
  bytes are the same letter when they are equal or are the upper-case and the lower-case
  form of one ASCII letter; two strings are equal up to case when they are the same
  letters position by position; a string contains a term up to case when one of its
  substrings equals the term up to case.
\<close>

definition base_name :: "string \<Rightarrow> string" where
  "base_name path = rev (takeWhile (\<lambda>c. c \<noteq> CHR ''/'') (rev path))"

definition is_upper :: "char \<Rightarrow> bool" where
  "is_upper c = (65 \<le> (of_char c :: nat) \<and> (of_char c :: nat) \<le> 90)"

definition same_letter :: "char \<Rightarrow> char \<Rightarrow> bool" where
  "same_letter c d =
     (c = d \<or> (is_upper c \<and> (of_char d :: nat) = of_char c + 32)
            \<or> (is_upper d \<and> (of_char c :: nat) = of_char d + 32))"

definition equal_fold :: "string \<Rightarrow> string \<Rightarrow> bool" where
  "equal_fold a b = list_all2 same_letter a b"

definition contains_fold :: "string \<Rightarrow> string \<Rightarrow> bool" where
  "contains_fold a t = (\<exists>ps m ss. a = ps @ m @ ss \<and> equal_fold m t)"

text \<open>The candidates of the glossary.\<close>

definition exact_candidate :: "string \<Rightarrow> string \<Rightarrow> bool" where
  "exact_candidate term path = equal_fold (base_name path) term"

definition partial_candidate :: "string \<Rightarrow> string \<Rightarrow> bool" where
  "partial_candidate term path = contains_fold (base_name path) term"

subsection \<open>Snapshots\<close>

text \<open>
  A snapshot file holds its lines, each followed by a newline: the header, then the body.
  The body lines of a file are the lines that the scanner delivers after the first.
\<close>

definition snapshot_text :: "string list \<Rightarrow> string" where
  "snapshot_text ls = concat (map (\<lambda>l. l @ [newline]) ls)"

definition body_lines :: "string \<Rightarrow> string list" where
  "body_lines content = drop 1 (Scan_all content)"

text \<open>A line ends in a path separator.\<close>

definition ends_in_separator :: "string \<Rightarrow> bool" where
  "ends_in_separator l = (l \<noteq> [] \<and> last l = CHR ''/'')"

text \<open>
  \<open>first_shortest cs r\<close>: \<open>r\<close> is the candidate of \<open>cs\<close> that no candidate is shorter
  than, and the first one of that length.
\<close>

definition first_shortest :: "string list \<Rightarrow> string \<Rightarrow> bool" where
  "first_shortest cs r =
     (\<exists>i < length cs. cs ! i = r \<and> (\<forall>j < length cs. length r \<le> length (cs ! j))
         \<and> (\<forall>j < i. length r < length (cs ! j)))"

subsection \<open>The directories of a tree\<close>

text \<open>
  \<open>walked p d ns q e\<close>: starting at the entry \<open>d\<close> with path \<open>p\<close>, the entry \<open>e\<close> with
  path \<open>q\<close> is reached along the names \<open>ns\<close> (the name of \<open>d\<close> first, the name of \<open>e\<close>
  last), going down only through directories that were read without error.
  \<open>listed p d\<close> are the paths of the directories so reached along names none of which is
  \<open>.git\<close>.
\<close>

inductive walked :: "string \<Rightarrow> dirent \<Rightarrow> string list \<Rightarrow> string \<Rightarrow> dirent \<Rightarrow> bool" where
  walked_here: "walked p d [Name d] p d"
| walked_below: "e \<in> set es \<Longrightarrow> walked (Join p (Name e)) e ns q e' \<Longrightarrow>
                 walked p (Dir n es None) (n # ns) q e'"

definition listed :: "string \<Rightarrow> dirent \<Rightarrow> string set" where
  "listed p d = {q. \<exists>ns e. walked p d ns q e \<and> IsDir e \<and> ''.git'' \<notin> set ns}"

text \<open>No call of \<open>WriteString\<close> fails; an environment without errors.\<close>

definition no_write_error :: "(nat \<Rightarrow> error option) \<Rightarrow> bool" where
  "no_write_error werr = (\<forall>n. werr n = None)"

definition quiet_env :: "error + dirent \<Rightarrow> io_env" where
  "quiet_env lstat =
     \<lparr>create_err = None, write_err = (\<lambda>n. None), flush_err = None, lstat_root = lstat\<rparr>"

subsection \<open>The two tiers of the loop\<close>

text \<open>
  The tests of lines 284 and 292, and what the loop keeps for a tier after the candidates
  \<open>cs\<close> of that tier: nothing (the initial values), or the first shortest candidate and
  its length.
\<close>

definition code_exact :: "string \<Rightarrow> string \<Rightarrow> bool" where
  "code_exact tlow path = (ToLower (name_of path) = tlow)"

definition code_partial :: "string \<Rightarrow> string \<Rightarrow> bool" where
  "code_partial tlow path = (ToLower (name_of path) \<noteq> tlow \<and> Contains (ToLower (name_of path)) tlow)"

definition tier_inv :: "string list \<Rightarrow> string \<Rightarrow> int \<Rightarrow> bool" where
  "tier_inv cs b bl =
     ((cs = [] \<longrightarrow> b = [] \<and> bl = maxInt) \<and>
      (cs \<noteq> [] \<longrightarrow> first_shortest cs b \<and> bl = int (length b)))"

section \<open>Facts about the library functions\<close>

lemma of_char_toLowerByte:
  "(of_char (toLowerByte c) :: nat) =
     (if 65 \<le> (of_char c :: nat) \<and> (of_char c :: nat) \<le> 90 then of_char c + 32 else of_char c)"
  by (simp add: toLowerByte_def)

lemma toLowerByte_eq_iff: "toLowerByte c = toLowerByte d \<longleftrightarrow> same_letter c d"
proof -
  have "toLowerByte c = toLowerByte d \<longleftrightarrow>
        (of_char (toLowerByte c) :: nat) = of_char (toLowerByte d)"
    by simp
  also have "\<dots> \<longleftrightarrow> same_letter c d"
    unfolding of_char_toLowerByte same_letter_def is_upper_def
    using of_char_eq_iff [of c d, where ?'a = nat] by auto
  finally show ?thesis .
qed

lemma ToLower_eq_iff: "ToLower a = ToLower b \<longleftrightarrow> equal_fold a b"
proof -
  have "ToLower a = ToLower b \<longleftrightarrow> list_all2 (=) (map toLowerByte a) (map toLowerByte b)"
    by (simp add: ToLower_def list.rel_eq)
  also have "\<dots> \<longleftrightarrow> list_all2 (\<lambda>x y. toLowerByte x = toLowerByte y) a b"
    by (simp add: list.rel_map)
  finally show ?thesis by (simp add: equal_fold_def toLowerByte_eq_iff)
qed

lemma HasPrefix_iff: "HasPrefix s pre \<longleftrightarrow> (\<exists>ss. s = pre @ ss)"
  unfolding HasPrefix_def
  by (metis append_eq_conv_conj append_take_drop_id)

lemma Contains_iff: "Contains s substr \<longleftrightarrow> (\<exists>ps ss. s = ps @ substr @ ss)"
proof (induction s)
  case Nil
  then show ?case by auto
next
  case (Cons c s)
  show ?case
  proof
    assume "Contains (c # s) substr"
    then consider "HasPrefix (c # s) substr" | "Contains s substr" by auto
    then show "\<exists>ps ss. c # s = ps @ substr @ ss"
    proof cases
      case 1
      then obtain ss where "c # s = substr @ ss" by (auto simp: HasPrefix_iff)
      then have "c # s = [] @ substr @ ss" by simp
      then show ?thesis by blast
    next
      case 2
      then obtain ps ss where "s = ps @ substr @ ss" using Cons.IH by blast
      then have "c # s = (c # ps) @ substr @ ss" by simp
      then show ?thesis by blast
    qed
  next
    assume "\<exists>ps ss. c # s = ps @ substr @ ss"
    then obtain ps ss where e: "c # s = ps @ substr @ ss" by blast
    show "Contains (c # s) substr"
    proof (cases ps)
      case Nil
      with e have "HasPrefix (c # s) substr" by (auto simp: HasPrefix_iff)
      then show ?thesis by simp
    next
      case (Cons p ps')
      with e have "s = ps' @ substr @ ss" by simp
      then have "Contains s substr" using Cons.IH by blast
      then show ?thesis by simp
    qed
  qed
qed

lemma Contains_ToLower_iff: "Contains (ToLower a) (ToLower t) \<longleftrightarrow> contains_fold a t"
proof
  assume "Contains (ToLower a) (ToLower t)"
  then obtain ps ss where "map toLowerByte a = ps @ ToLower t @ ss"
    by (auto simp: Contains_iff ToLower_def)
  then obtain ps' r where a: "a = ps' @ r" and "map toLowerByte r = ToLower t @ ss"
    using map_eq_append_conv [of toLowerByte a ps "ToLower t @ ss"] by metis
  then obtain m ss' where r: "r = m @ ss'" and "map toLowerByte m = ToLower t"
    using map_eq_append_conv [of toLowerByte r "ToLower t" ss] by metis
  then have "equal_fold m t" by (simp add: ToLower_eq_iff [symmetric] ToLower_def)
  with a r show "contains_fold a t" unfolding contains_fold_def by blast
next
  assume "contains_fold a t"
  then obtain ps m ss where a: "a = ps @ m @ ss" and "equal_fold m t"
    unfolding contains_fold_def by blast
  then have "ToLower m = ToLower t" by (simp add: ToLower_eq_iff)
  with a have "ToLower a = ToLower ps @ ToLower t @ ToLower ss" by (simp add: ToLower_def)
  then show "Contains (ToLower a) (ToLower t)" unfolding Contains_iff by blast
qed

lemma takeWhile_neq_all: "c \<notin> set ys \<Longrightarrow> takeWhile (\<lambda>x. x \<noteq> c) ys = ys"
  by (induction ys) auto

lemma takeWhile_neq_stop: "c \<notin> set ys \<Longrightarrow> takeWhile (\<lambda>x. x \<noteq> c) (ys @ c # zs) = ys"
  by (induction ys) auto

lemma LastIndexByte_neg: "LastIndexByte xs c < 0 \<longleftrightarrow> c \<notin> set xs"
  by (induction xs) (auto simp: Let_def)

lemma LastIndexByte_drop:
  "c \<in> set xs \<Longrightarrow>
     drop (nat (LastIndexByte xs c + 1)) xs = rev (takeWhile (\<lambda>x. x \<noteq> c) (rev xs))"
proof (induction xs)
  case Nil
  then show ?case by simp
next
  case (Cons x xs)
  show ?case
  proof (cases "c \<in> set xs")
    case True
    then have r: "0 \<le> LastIndexByte xs c" using LastIndexByte_neg [of xs c] by simp
    then have "nat (LastIndexByte xs c + 1 + 1) = Suc (nat (LastIndexByte xs c + 1))" by simp
    with r True Cons.IH show ?thesis by (simp add: Let_def takeWhile_append1)
  next
    case False
    then have r: "\<not> 0 \<le> LastIndexByte xs c" using LastIndexByte_neg [of xs c] by simp
    from False Cons.prems have "x = c" by simp
    moreover from False have "takeWhile (\<lambda>x. x \<noteq> c) (rev xs @ [c]) = rev xs"
      using takeWhile_neq_stop [of c "rev xs" "[]"] by simp
    ultimately show ?thesis using r by (simp add: Let_def)
  qed
qed

lemma name_of_base_name: "name_of path = base_name path"
proof (cases "CHR ''/'' \<in> set path")
  case True
  then have "0 \<le> LastIndexByte path CHR ''/''" using LastIndexByte_neg [of path "CHR ''/''"] by simp
  with True show ?thesis by (simp add: name_of_def base_name_def Let_def LastIndexByte_drop)
next
  case False
  then have "\<not> 0 \<le> LastIndexByte path CHR ''/''" using LastIndexByte_neg [of path "CHR ''/''"] by simp
  then have "name_of path = path" by (simp add: name_of_def Let_def)
  moreover from False have "base_name path = path"
    unfolding base_name_def by (subst takeWhile_neq_all) simp_all
  ultimately show ?thesis by simp
qed

section \<open>The loop of the resolver\<close>

lemma maxInt_eq: "maxInt = 9223372036854775807"
  unfolding maxInt_def by (simp add: uint_mask_eq mask_eq_exp_minus_1)

lemma Scan_all_Nil: "Scan_all [] = []"
  by (subst Scan_all.simps) simp

lemma Scan_all_too_long:
  "MaxScanTokenSize \<le> length (takeWhile (\<lambda>c. c \<noteq> newline) data) \<Longrightarrow> Scan_all data = []"
  by (subst Scan_all.simps) (simp add: Let_def)

lemma Scan_all_token:
  "data \<noteq> [] \<Longrightarrow> length (takeWhile (\<lambda>c. c \<noteq> newline) data) < MaxScanTokenSize \<Longrightarrow>
   Scan_all data = dropCR (takeWhile (\<lambda>c. c \<noteq> newline) data)
                     # Scan_all (drop (Suc (length (takeWhile (\<lambda>c. c \<noteq> newline) data))) data)"
  by (subst Scan_all.simps) (simp add: Let_def)

lemma Scan_all_length: "l \<in> set (Scan_all data) \<Longrightarrow> length l < MaxScanTokenSize"
proof (induction data rule: Scan_all.induct)
  case (1 data)
  let ?line = "takeWhile (\<lambda>c. c \<noteq> newline) data"
  show ?case
  proof (cases "data = [] \<or> MaxScanTokenSize \<le> length ?line")
    case True
    then have "Scan_all data = []" using Scan_all_Nil Scan_all_too_long by blast
    with "1.prems" show ?thesis by simp
  next
    case False
    then have e: "Scan_all data = dropCR ?line # Scan_all (drop (Suc (length ?line)) data)"
      using Scan_all_token [of data] by simp
    have "length (dropCR ?line) \<le> length ?line" by (simp add: dropCR_def)
    with False have "length (dropCR ?line) < MaxScanTokenSize" by simp
    moreover have "l \<in> set (Scan_all (drop (Suc (length ?line)) data)) \<Longrightarrow> ?thesis"
      using "1.IH" [of ?line] False by simp
    ultimately show ?thesis using "1.prems" e by auto
  qed
qed

lemma body_lines_length: "l \<in> set (body_lines content) \<Longrightarrow> int (length l) < maxInt"
proof -
  assume "l \<in> set (body_lines content)"
  then have "l \<in> set (Scan_all content)" unfolding body_lines_def by (rule in_set_dropD)
  then have "length l < MaxScanTokenSize" by (rule Scan_all_length)
  then show ?thesis by (simp add: MaxScanTokenSize_def maxInt_eq)
qed

lemma first_shortest_single: "first_shortest [c] c"
  unfolding first_shortest_def by auto

lemma first_shortest_snoc_new:
  assumes "first_shortest cs b" and "length c < length b"
  shows "first_shortest (cs @ [c]) c"
proof -
  from assms(1) have all: "\<forall>j < length cs. length b \<le> length (cs ! j)"
    unfolding first_shortest_def by blast
  have "(cs @ [c]) ! length cs = c" by simp
  moreover have lt: "\<forall>j < length cs. length c < length ((cs @ [c]) ! j)"
  proof (intro allI impI)
    fix j assume j: "j < length cs"
    with all have "length b \<le> length (cs ! j)" by blast
    with assms(2) j show "length c < length ((cs @ [c]) ! j)" by (simp add: nth_append)
  qed
  moreover have "\<forall>j < length (cs @ [c]). length c \<le> length ((cs @ [c]) ! j)"
  proof (intro allI impI)
    fix j assume "j < length (cs @ [c])"
    then consider "j < length cs" | "j = length cs" by fastforce
    then show "length c \<le> length ((cs @ [c]) ! j)"
    proof cases
      case 1
      with lt show ?thesis by (simp add: less_imp_le)
    next
      case 2
      then show ?thesis by simp
    qed
  qed
  ultimately show ?thesis unfolding first_shortest_def
    by (intro exI [of _ "length cs"]) simp
qed

lemma first_shortest_snoc_keep:
  assumes "first_shortest cs b" and "length b \<le> length c"
  shows "first_shortest (cs @ [c]) b"
proof -
  from assms(1) obtain i where i: "i < length cs" "cs ! i = b"
    and all: "\<forall>j < length cs. length b \<le> length (cs ! j)"
    and before: "\<forall>j < i. length b < length (cs ! j)"
    unfolding first_shortest_def by blast
  have "(cs @ [c]) ! i = b" using i by (simp add: nth_append)
  moreover have "\<forall>j < length (cs @ [c]). length b \<le> length ((cs @ [c]) ! j)"
    using all assms(2) by (auto simp: nth_append less_Suc_eq)
  moreover have "\<forall>j < i. length b < length ((cs @ [c]) ! j)"
    using before i by (auto simp: nth_append)
  ultimately show ?thesis unfolding first_shortest_def
    using i by (intro exI [of _ i]) simp
qed

lemma tier_inv_step:
  assumes "tier_inv cs b bl" and "int (length c) < maxInt"
  shows "tier_inv (cs @ [c]) (if int (length c) < bl then c else b)
           (if int (length c) < bl then int (length c) else bl)"
proof (cases "cs = []")
  case True
  with assms show ?thesis by (simp add: tier_inv_def first_shortest_single)
next
  case False
  with assms(1) have fs: "first_shortest cs b" and bl: "bl = int (length b)"
    by (simp_all add: tier_inv_def)
  show ?thesis
  proof (cases "int (length c) < bl")
    case True
    with bl have "length c < length b" by simp
    then have "first_shortest (cs @ [c]) c" using fs by (rule first_shortest_snoc_new [rotated])
    with True show ?thesis by (simp add: tier_inv_def)
  next
    case False
    with bl have "length b \<le> length c" by simp
    then have "first_shortest (cs @ [c]) b" using fs by (rule first_shortest_snoc_keep [rotated])
    with False bl show ?thesis by (simp add: tier_inv_def)
  qed
qed

lemma scan_loop_snoc:
  "scan_loop tlow st (xs @ [x]) = loop_body tlow (scan_loop tlow st xs) x"
  by (induction xs arbitrary: st) simp_all

lemma scan_loop_inv:
  assumes "\<forall>l \<in> set xs. int (length l) < maxInt"
  shows "tier_inv (filter (code_exact tlow) xs) (bestExact (scan_loop tlow init_best xs))
             (bestExactLen (scan_loop tlow init_best xs)) \<and>
         tier_inv (filter (code_partial tlow) xs) (bestPartial (scan_loop tlow init_best xs))
             (bestPartialLen (scan_loop tlow init_best xs))"
  using assms
proof (induction xs rule: rev_induct)
  case Nil
  then show ?case by (simp add: tier_inv_def init_best_def)
next
  case (snoc x xs)
  let ?st = "scan_loop tlow init_best xs"
  from snoc have ih1: "tier_inv (filter (code_exact tlow) xs) (bestExact ?st) (bestExactLen ?st)"
    and ih2: "tier_inv (filter (code_partial tlow) xs) (bestPartial ?st) (bestPartialLen ?st)"
    and len: "int (length x) < maxInt" by simp_all
  consider (ex) "code_exact tlow x" | (pa) "code_partial tlow x"
    | (no) "\<not> code_exact tlow x" "\<not> code_partial tlow x" by blast
  then show ?case
  proof cases
    case ex
    then have np: "\<not> code_partial tlow x" by (simp add: code_exact_def code_partial_def)
    from ex have "ToLower (name_of x) = tlow" by (simp add: code_exact_def)
    then have "loop_body tlow ?st x =
        (if int (length x) < bestExactLen ?st
         then ?st\<lparr>bestExact := x, bestExactLen := int (length x)\<rparr> else ?st)"
      by (simp add: loop_body_def Let_def)
    then show ?thesis
      using tier_inv_step [OF ih1 len] ih2 ex np
      by (cases "int (length x) < bestExactLen ?st") (simp_all add: scan_loop_snoc)
  next
    case pa
    then have ne: "\<not> code_exact tlow x" by (simp add: code_exact_def code_partial_def)
    from pa have "ToLower (name_of x) \<noteq> tlow" "Contains (ToLower (name_of x)) tlow"
      by (simp_all add: code_partial_def)
    then have "loop_body tlow ?st x =
        (if int (length x) < bestPartialLen ?st
         then ?st\<lparr>bestPartial := x, bestPartialLen := int (length x)\<rparr> else ?st)"
      by (simp add: loop_body_def Let_def)
    then show ?thesis
      using tier_inv_step [OF ih2 len] ih1 pa ne
      by (cases "int (length x) < bestPartialLen ?st") (simp_all add: scan_loop_snoc)
  next
    case no
    then have "loop_body tlow ?st x = ?st"
      by (auto simp: loop_body_def Let_def code_exact_def code_partial_def)
    then show ?thesis using ih1 ih2 no by (simp add: scan_loop_snoc)
  qed
qed

section \<open>What the resolver returns\<close>

lemma first_shortest_mem: "first_shortest cs r \<Longrightarrow> r \<in> set cs"
  unfolding first_shortest_def by auto

lemma first_shortest_unique:
  assumes "first_shortest cs r" and "first_shortest cs r'"
  shows "r = r'"
proof -
  from assms(1) obtain i where i: "i < length cs" "cs ! i = r"
    and ai: "\<forall>j < length cs. length r \<le> length (cs ! j)"
    and bi: "\<forall>j < i. length r < length (cs ! j)"
    unfolding first_shortest_def by blast
  from assms(2) obtain k where k: "k < length cs" "cs ! k = r'"
    and ak: "\<forall>j < length cs. length r' \<le> length (cs ! j)"
    and bk: "\<forall>j < k. length r' < length (cs ! j)"
    unfolding first_shortest_def by blast
  from ai k have "length r \<le> length r'" by blast
  moreover from ak i have "length r' \<le> length r" by blast
  ultimately have eq: "length r = length r'" by simp
  have "\<not> i < k" using bk i eq by auto
  moreover have "\<not> k < i" using bi k eq by auto
  ultimately have "i = k" by simp
  with i k show ?thesis by simp
qed


lemma equal_fold_Nil: "equal_fold a [] \<longleftrightarrow> a = []"
  by (simp add: equal_fold_def)





lemma code_exact_iff: "code_exact (ToLower term) path \<longleftrightarrow> exact_candidate term path"
  by (simp add: code_exact_def exact_candidate_def name_of_base_name ToLower_eq_iff)

lemma code_partial_iff:
  "code_partial (ToLower term) path \<longleftrightarrow> \<not> exact_candidate term path \<and> partial_candidate term path"
  by (simp add: code_partial_def exact_candidate_def partial_candidate_def name_of_base_name
      ToLower_eq_iff Contains_ToLower_iff)

lemma final_state:
  "tier_inv (filter (exact_candidate term) (body_lines content))
     (bestExact (scan_loop (ToLower term) init_best (body_lines content)))
     (bestExactLen (scan_loop (ToLower term) init_best (body_lines content)))"
  "tier_inv (filter (\<lambda>p. \<not> exact_candidate term p \<and> partial_candidate term p) (body_lines content))
     (bestPartial (scan_loop (ToLower term) init_best (body_lines content)))
     (bestPartialLen (scan_loop (ToLower term) init_best (body_lines content)))"
proof -
  have len: "\<forall>l \<in> set (body_lines content). int (length l) < maxInt"
    using body_lines_length by blast
  have e: "filter (code_exact (ToLower term)) (body_lines content)
      = filter (exact_candidate term) (body_lines content)"
    by (rule filter_cong) (simp_all add: code_exact_iff)
  have p: "filter (code_partial (ToLower term)) (body_lines content)
      = filter (\<lambda>p. \<not> exact_candidate term p \<and> partial_candidate term p) (body_lines content)"
    by (rule filter_cong) (simp_all add: code_partial_iff)
  from scan_loop_inv [OF len, of "ToLower term"] e p
  show "tier_inv (filter (exact_candidate term) (body_lines content))
     (bestExact (scan_loop (ToLower term) init_best (body_lines content)))
     (bestExactLen (scan_loop (ToLower term) init_best (body_lines content)))"
    and "tier_inv (filter (\<lambda>p. \<not> exact_candidate term p \<and> partial_candidate term p) (body_lines content))
     (bestPartial (scan_loop (ToLower term) init_best (body_lines content)))
     (bestPartialLen (scan_loop (ToLower term) init_best (body_lines content)))"
    by simp_all
qed

lemma search_unfold:
  "searchDatabaseOptimized (Inr content) term =
     (let st = scan_loop (ToLower term) init_best (body_lines content)
      in if bestExact st \<noteq> [] then Inr (bestExact st)
         else if bestPartial st \<noteq> [] then Inr (bestPartial st)
         else Inl (Err (''directory not found: '' @ term)))"
  by (simp add: searchDatabaseOptimized_def body_lines_def)





section \<open>Snapshot files and their lines\<close>

lemma Scan_all_line:
  assumes "newline \<notin> set l" and "length l < MaxScanTokenSize"
  shows "Scan_all (l @ newline # rest) = dropCR l # Scan_all rest"
proof -
  have t: "takeWhile (\<lambda>c. c \<noteq> newline) (l @ newline # rest) = l"
    using assms(1) by (rule takeWhile_neq_stop)
  show ?thesis using Scan_all_token [of "l @ newline # rest"] assms(2) by (simp add: t)
qed

lemma Scan_all_snapshot:
  "\<forall>l \<in> set ls. newline \<notin> set l \<and> length l < MaxScanTokenSize \<Longrightarrow>
   Scan_all (snapshot_text ls) = map dropCR ls"
  by (induction ls) (simp_all add: snapshot_text_def Scan_all_Nil Scan_all_line)



section \<open>The directories reached by the walk\<close>

inductive_cases walked_FileE: "walked p (File n) ns q e"
inductive_cases walked_DirE: "walked p (Dir n es r) ns q e"

lemma walked_File: "walked p (File n) ns q e \<longleftrightarrow> ns = [n] \<and> q = p \<and> e = File n"
proof
  assume "walked p (File n) ns q e"
  then show "ns = [n] \<and> q = p \<and> e = File n" by (rule walked_FileE) simp
next
  assume "ns = [n] \<and> q = p \<and> e = File n"
  then show "walked p (File n) ns q e" using walked_here [of p "File n"] by simp
qed

lemma walked_Dir_err:
  "walked p (Dir n es (Some x)) ns q e \<longleftrightarrow> ns = [n] \<and> q = p \<and> e = Dir n es (Some x)"
proof
  assume "walked p (Dir n es (Some x)) ns q e"
  then show "ns = [n] \<and> q = p \<and> e = Dir n es (Some x)" by (rule walked_DirE) simp_all
next
  assume "ns = [n] \<and> q = p \<and> e = Dir n es (Some x)"
  then show "walked p (Dir n es (Some x)) ns q e"
    using walked_here [of p "Dir n es (Some x)"] by simp
qed

lemma walked_Dir:
  "walked p (Dir n es None) ns q e \<longleftrightarrow>
     (ns = [n] \<and> q = p \<and> e = Dir n es None) \<or>
     (\<exists>c ns'. c \<in> set es \<and> walked (Join p (Name c)) c ns' q e \<and> ns = n # ns')"
proof
  assume "walked p (Dir n es None) ns q e"
  then show "(ns = [n] \<and> q = p \<and> e = Dir n es None) \<or>
     (\<exists>c ns'. c \<in> set es \<and> walked (Join p (Name c)) c ns' q e \<and> ns = n # ns')"
    by (rule walked_DirE) (simp, blast)
next
  assume "(ns = [n] \<and> q = p \<and> e = Dir n es None) \<or>
     (\<exists>c ns'. c \<in> set es \<and> walked (Join p (Name c)) c ns' q e \<and> ns = n # ns')"
  then show "walked p (Dir n es None) ns q e"
    using walked_here [of p "Dir n es None"] walked_below [of _ es p _ q e n] by auto
qed

lemma listed_File: "listed p (File n) = {}"
  by (simp add: listed_def walked_File)

lemma walked_hd: "walked p d ns q e \<Longrightarrow> Name d \<in> set ns"
  by (induction rule: walked.induct) simp_all

lemma listed_git: "Name d = ''.git'' \<Longrightarrow> listed p d = {}"
proof -
  assume g: "Name d = ''.git''"
  have "\<And>ns q e. walked p d ns q e \<Longrightarrow> ''.git'' \<in> set ns"
    using walked_hd [of p d] g by metis
  then show ?thesis unfolding listed_def by blast
qed

lemma listed_Dir_err: "n \<noteq> ''.git'' \<Longrightarrow> listed p (Dir n es (Some x)) = {p}"
  by (auto simp: listed_def walked_Dir_err)

lemma listed_Dir:
  assumes "n \<noteq> ''.git''"
  shows "listed p (Dir n es None) = insert p (\<Union>c \<in> set es. listed (Join p (Name c)) c)"
proof (rule set_eqI)
  fix q
  have "q \<in> listed p (Dir n es None) \<longleftrightarrow>
        (\<exists>ns e. walked p (Dir n es None) ns q e \<and> IsDir e \<and> ''.git'' \<notin> set ns)"
    by (simp add: listed_def)
  also have "\<dots> \<longleftrightarrow> q = p \<or>
        (\<exists>c \<in> set es. \<exists>ns' e. walked (Join p (Name c)) c ns' q e \<and> IsDir e \<and> ''.git'' \<notin> set ns')"
    (is "?L \<longleftrightarrow> ?R")
  proof
    assume ?L
    then obtain ns e where w: "walked p (Dir n es None) ns q e" and d: "IsDir e"
      and g: "''.git'' \<notin> set ns" by blast
    from w consider "ns = [n]" "q = p" "e = Dir n es None"
      | c ns' where "c \<in> set es" "walked (Join p (Name c)) c ns' q e" "ns = n # ns'"
      unfolding walked_Dir by blast
    then show ?R
    proof cases
      case 1
      then show ?thesis by simp
    next
      case 2
      with g have "''.git'' \<notin> set ns'" by simp
      with 2 d show ?thesis by blast
    qed
  next
    assume ?R
    then consider "q = p"
      | c ns' e where "c \<in> set es" "walked (Join p (Name c)) c ns' q e" "IsDir e" "''.git'' \<notin> set ns'"
      by blast
    then show ?L
    proof cases
      case 1
      have "walked p (Dir n es None) [n] p (Dir n es None)" by (simp add: walked_Dir)
      moreover have "''.git'' \<notin> set [n]" using assms by simp
      ultimately show ?thesis using 1 IsDir.simps(2) by blast
    next
      case 2
      then have "walked p (Dir n es None) (n # ns') q e" using walked_below by blast
      moreover have "''.git'' \<notin> set (n # ns')" using 2 assms by simp
      ultimately show ?thesis using 2 by blast
    qed
  qed
  also have "\<dots> \<longleftrightarrow> q \<in> insert p (\<Union>c \<in> set es. listed (Join p (Name c)) c)"
    by (simp add: listed_def)
  finally show "q \<in> listed p (Dir n es None) \<longleftrightarrow>
      q \<in> insert p (\<Union>c \<in> set es. listed (Join p (Name c)) c)" .
qed

section \<open>The walk without write errors\<close>

lemma walkFn_ok_first:
  "no_write_error werr \<Longrightarrow> walkFn werr p (Some d) None w =
     (if IsDir d \<and> Name d = ''.git'' then (Some SkipDir, w)
      else if IsDir d then (None, w @ [p @ [newline]]) else (None, w))"
  by (simp add: walkFn_def WriteString_def no_write_error_def)

lemma walkFn_err: "walkFn werr p d (Some e) w = (Some SkipDir, w)"
  by (simp add: walkFn_def)

lemma walkDir_File:
  "no_write_error werr \<Longrightarrow> walkDir (walkFn werr) p (File n) w = (None, w)"
  by (subst walkDir.simps) (simp add: walkFn_ok_first del: walkDir.simps)

lemma walkDir_git:
  "no_write_error werr \<Longrightarrow> walkDir (walkFn werr) p (Dir ''.git'' es rerr) w = (None, w)"
  by (subst walkDir.simps) (simp add: walkFn_ok_first del: walkDir.simps)

lemma walkDir_unreadable:
  "no_write_error werr \<Longrightarrow> n \<noteq> ''.git'' \<Longrightarrow>
   walkDir (walkFn werr) p (Dir n es (Some x)) w = (None, w @ [p @ [newline]])"
  by (subst walkDir.simps) (simp add: walkFn_ok_first walkFn_err del: walkDir.simps)

lemma walkDir_readable:
  "no_write_error werr \<Longrightarrow> n \<noteq> ''.git'' \<Longrightarrow>
   walkDir (walkFn werr) p (Dir n es None) w = walkDirs (walkFn werr) p es (w @ [p @ [newline]])"
  by (subst walkDir.simps) (simp add: walkFn_ok_first del: walkDir.simps)

lemma walkDirs_ok:
  assumes "\<And>c p w. c \<in> set ds \<Longrightarrow>
     \<exists>L. walkDir fn p c w = (None, w @ map (\<lambda>q. q @ [newline]) L) \<and> set L = listed p c"
  shows "\<exists>L. walkDirs fn p ds w = (None, w @ map (\<lambda>q. q @ [newline]) L)
            \<and> set L = (\<Union>c \<in> set ds. listed (Join p (Name c)) c)"
  using assms
proof (induction ds arbitrary: w)
  case Nil
  then show ?case by simp
next
  case (Cons d1 ds)
  from Cons.prems [of d1 "Join p (Name d1)" w] obtain L1 where
    l1: "walkDir fn (Join p (Name d1)) d1 w = (None, w @ map (\<lambda>q. q @ [newline]) L1)"
    and s1: "set L1 = listed (Join p (Name d1)) d1" by auto
  have "\<exists>L. walkDirs fn p ds (w @ map (\<lambda>q. q @ [newline]) L1)
           = (None, (w @ map (\<lambda>q. q @ [newline]) L1) @ map (\<lambda>q. q @ [newline]) L)
        \<and> set L = (\<Union>c \<in> set ds. listed (Join p (Name c)) c)"
    by (rule Cons.IH) (simp add: Cons.prems)
  then obtain L2 where
    l2: "walkDirs fn p ds (w @ map (\<lambda>q. q @ [newline]) L1)
           = (None, (w @ map (\<lambda>q. q @ [newline]) L1) @ map (\<lambda>q. q @ [newline]) L2)"
    and s2: "set L2 = (\<Union>c \<in> set ds. listed (Join p (Name c)) c)" by blast
  have "walkDirs fn p (d1 # ds) w = (None, w @ map (\<lambda>q. q @ [newline]) (L1 @ L2))"
    using l1 l2 by simp
  moreover have "set (L1 @ L2) = (\<Union>c \<in> set (d1 # ds). listed (Join p (Name c)) c)"
    using s1 s2 by simp
  ultimately show ?case by blast
qed

lemma walkDir_ok:
  assumes "no_write_error werr"
  shows "\<exists>L. walkDir (walkFn werr) p d w = (None, w @ map (\<lambda>q. q @ [newline]) L)
            \<and> set L = listed p d"
proof (induction d arbitrary: p w)
  case (File n)
  have "walkDir (walkFn werr) p (File n) w = (None, w @ map (\<lambda>q. q @ [newline]) [])"
    using assms by (simp add: walkDir_File)
  moreover have "set [] = listed p (File n)" by (simp add: listed_File)
  ultimately show ?case by blast
next
  case (Dir n es rerr)
  show ?case
  proof (cases "n = ''.git''")
    case True
    have "walkDir (walkFn werr) p (Dir n es rerr) w = (None, w @ map (\<lambda>q. q @ [newline]) [])"
      using assms True by (simp add: walkDir_git)
    moreover have "set [] = listed p (Dir n es rerr)" using True by (simp add: listed_git)
    ultimately show ?thesis by blast
  next
    case False
    show ?thesis
    proof (cases rerr)
      case (Some x)
      have "walkDir (walkFn werr) p (Dir n es rerr) w = (None, w @ map (\<lambda>q. q @ [newline]) [p])"
        using assms False Some by (simp add: walkDir_unreadable)
      moreover have "set [p] = listed p (Dir n es rerr)" using False Some by (simp add: listed_Dir_err)
      ultimately show ?thesis by blast
    next
      case None
      have "\<And>c p w. c \<in> set es \<Longrightarrow>
          \<exists>L. walkDir (walkFn werr) p c w = (None, w @ map (\<lambda>q. q @ [newline]) L) \<and> set L = listed p c"
        using Dir.IH by blast
      from walkDirs_ok [of es "walkFn werr" p "w @ [p @ [newline]]", OF this] obtain L where
        l: "walkDirs (walkFn werr) p es (w @ [p @ [newline]])
              = (None, (w @ [p @ [newline]]) @ map (\<lambda>q. q @ [newline]) L)"
        and s: "set L = (\<Union>c \<in> set es. listed (Join p (Name c)) c)" by blast
      have "walkDir (walkFn werr) p (Dir n es rerr) w = (None, w @ map (\<lambda>q. q @ [newline]) (p # L))"
        using assms False None l by (simp add: walkDir_readable)
      moreover have "set (p # L) = listed p (Dir n es rerr)"
        using False None s by (simp add: listed_Dir)
      ultimately show ?thesis by blast
    qed
  qed
qed

section \<open>Errors of the walk and the result of generateDatabase\<close>

lemma walkFn_first_cases:
  assumes "walkFn werr p (Some d) None w = (r, w')"
  shows "(r = Some SkipDir \<and> IsDir d) \<or> r = None \<or> (\<exists>e. r = Some e \<and> werr (length w) = Some e)"
  using assms by (auto simp: walkFn_def WriteString_def split: if_splits option.splits)

lemma walkDirs_err:
  assumes "\<And>c p w e w'. c \<in> set ds \<Longrightarrow> walkDir fn p c w = (Some e, w') \<Longrightarrow> Q e"
    and "walkDirs fn p ds w = (Some e, w')"
  shows "Q e"
  using assms
proof (induction ds arbitrary: w)
  case Nil
  then show ?case by simp
next
  case (Cons d1 ds)
  obtain r w1 where r: "walkDir fn (Join p (Name d1)) d1 w = (r, w1)" by fastforce
  show ?case
  proof (cases r)
    case None
    with r Cons.prems(2) have "walkDirs fn p ds w1 = (Some e, w')" by simp
    moreover have "\<And>c p w e w'. c \<in> set ds \<Longrightarrow> walkDir fn p c w = (Some e, w') \<Longrightarrow> Q e"
      using Cons.prems(1) by (meson list.set_intros(2))
    ultimately show ?thesis using Cons.IH by blast
  next
    case (Some x)
    with r Cons.prems(2) have "x = e" by (simp split: if_splits)
    with r Some have "walkDir fn (Join p (Name d1)) d1 w = (Some e, w1)" by simp
    then show ?thesis using Cons.prems(1) [of d1] by simp
  qed
qed

lemma walkDir_err:
  "walkDir (walkFn werr) p d w = (Some e, w') \<Longrightarrow> \<exists>k. werr k = Some e"
proof (induction d arbitrary: p w w' e)
  case (File n)
  have "walkFn werr p (Some (File n)) None w = (None, w)" by (simp add: walkFn_def)
  then have "walkDir (walkFn werr) p (File n) w = (None, w)"
    by (subst walkDir.simps) simp
  with File show ?case by simp
next
  case (Dir n es rerr)
  obtain r w1 where r: "walkFn werr p (Some (Dir n es rerr)) None w = (r, w1)" by fastforce
  from walkFn_first_cases [OF r]
  consider "r = Some SkipDir" | "r = None" | x where "r = Some x" "werr (length w) = Some x" "x \<noteq> SkipDir"
    by auto
  then show ?case
  proof cases
    case 1
    with r have "walkDir (walkFn werr) p (Dir n es rerr) w = (None, w1)"
      by (subst walkDir.simps) simp
    with Dir.prems show ?thesis by simp
  next
    case 2
    show ?thesis
    proof (cases rerr)
      case None
      with 2 r have "walkDir (walkFn werr) p (Dir n es rerr) w = walkDirs (walkFn werr) p es w1"
        by (subst walkDir.simps) simp
      with Dir.prems have "walkDirs (walkFn werr) p es w1 = (Some e, w')" by simp
      then show ?thesis using walkDirs_err [of es "walkFn werr" "\<lambda>e. \<exists>k. werr k = Some e"] Dir.IH
        by blast
    next
      case (Some x)
      with 2 r have "walkDir (walkFn werr) p (Dir n es rerr) w = (None, w1)"
        by (subst walkDir.simps) (simp add: walkFn_err)
      with Dir.prems show ?thesis by simp
    qed
  next
    case 3
    with r have "walkDir (walkFn werr) p (Dir n es rerr) w = (Some x, w1)"
      by (subst walkDir.simps) simp
    with Dir.prems 3 show ?thesis by auto
  qed
qed

lemma WalkDir_err:
  assumes "WalkDir (walkFn werr) root lstat w = (Some e, w')"
  shows "\<exists>k. werr k = Some e"
proof (cases lstat)
  case (Inl x)
  then have "WalkDir (walkFn werr) root lstat w = (None, w)"
    by (simp add: WalkDir_def walkFn_err)
  with assms show ?thesis by simp
next
  case (Inr d)
  obtain r w1 where r: "walkDir (walkFn werr) root d w = (r, w1)" by fastforce
  with Inr assms have "r = Some e" by (auto simp: WalkDir_def split: option.splits if_splits)
  with r show ?thesis using walkDir_err by blast
qed

lemma WalkDir_lstat_error:
  "WalkDir (walkFn werr) root (Inl err) w = (None, w)"
  by (simp add: WalkDir_def walkFn_err)

lemma WalkDir_ok:
  assumes "no_write_error werr"
  shows "\<exists>L. WalkDir (walkFn werr) root (Inr d) w = (None, w @ map (\<lambda>q. q @ [newline]) L)
            \<and> set L = listed root d"
proof -
  from walkDir_ok [OF assms, of root d w] obtain L where
    "walkDir (walkFn werr) root d w = (None, w @ map (\<lambda>q. q @ [newline]) L)" "set L = listed root d"
    by blast
  then show ?thesis by (auto simp: WalkDir_def)
qed


lemma concat_lines: "concat (map (\<lambda>q. q @ [newline]) ls) = snapshot_text ls"
  by (simp add: snapshot_text_def)

lemma generateDatabase_err:
  assumes "generateDatabase env root = Inl e"
  shows "create_err env = Some e \<or> (\<exists>k. write_err env k = Some e) \<or> flush_err env = Some e"
proof (cases "create_err env")
  case (Some x)
  with assms show ?thesis by (simp add: generateDatabase_def)
next
  case None
  show ?thesis
  proof (cases "write_err env 0")
    case (Some x)
    with None assms show ?thesis by (auto simp: generateDatabase_def WriteString_def)
  next
    case wn: None
    obtain r w1 where r: "WalkDir (walkFn (write_err env)) root (lstat_root env) [root @ [newline]] = (r, w1)"
      by fastforce
    show ?thesis
    proof (cases r)
      case (Some x)
      with None wn r assms have "x = e" by (simp add: generateDatabase_def WriteString_def)
      with Some r show ?thesis using WalkDir_err by blast
    next
      case rn: None
      with None wn r assms show ?thesis
        by (auto simp: generateDatabase_def WriteString_def split: option.splits)
    qed
  qed
qed

lemma generateDatabase_lstat_error:
  assumes "create_err env = None" "no_write_error (write_err env)" "flush_err env = None"
    and "lstat_root env = Inl err"
  shows "generateDatabase env root = Inr (snapshot_text [root])"
  using assms
  by (simp add: generateDatabase_def WriteString_def no_write_error_def WalkDir_lstat_error
      snapshot_text_def)

lemma generateDatabase_ok:
  assumes "create_err env = None" "no_write_error (write_err env)" "flush_err env = None"
    and "lstat_root env = Inr d"
  shows "\<exists>body. generateDatabase env root = Inr (snapshot_text (root # body))
             \<and> set body = listed root d"
proof -
  from WalkDir_ok [OF assms(2), of root d "[root @ [newline]]"] obtain L where
    l: "WalkDir (walkFn (write_err env)) root (Inr d) [root @ [newline]]
          = (None, [root @ [newline]] @ map (\<lambda>q. q @ [newline]) L)"
    and s: "set L = listed root d" by blast
  have "generateDatabase env root = Inr (snapshot_text (root # L))"
    using assms l by (simp add: generateDatabase_def WriteString_def no_write_error_def
        snapshot_text_def)
  with s show ?thesis by blast
qed

section \<open>Headers, empty terms and one step of the loop\<close>

lemma body_lines_snapshot:
  "\<forall>l \<in> set (h # ls). newline \<notin> set l \<and> length l < MaxScanTokenSize \<Longrightarrow>
   body_lines (snapshot_text (h # ls)) = map dropCR ls"
  by (simp add: body_lines_def Scan_all_snapshot)






lemma base_name_empty_iff: "base_name l = [] \<longleftrightarrow> l = [] \<or> last l = CHR ''/''"
proof (cases "l = []")
  case True
  then show ?thesis by (simp add: base_name_def)
next
  case False
  then have "hd (rev l) = last l" by (simp add: hd_rev)
  with False show ?thesis by (auto simp: base_name_def takeWhile_eq_Nil_iff)
qed

lemma exact_candidate_empty: "exact_candidate [] l \<longleftrightarrow> l = [] \<or> ends_in_separator l"
  by (auto simp: exact_candidate_def equal_fold_Nil base_name_empty_iff ends_in_separator_def)

lemma partial_candidate_empty: "partial_candidate [] l"
  unfolding partial_candidate_def contains_fold_def equal_fold_def
  by (intro exI [of _ "[]"] exI [of _ "base_name l"]) simp

lemma resolve_empty_term:
  assumes "body_lines content \<noteq> []"
    and "\<forall>l \<in> set (body_lines content). l \<noteq> [] \<and> \<not> ends_in_separator l"
  shows "\<exists>r. searchDatabaseOptimized (Inr content) [] = Inr r \<and> first_shortest (body_lines content) r"
proof -
  let ?st = "scan_loop (ToLower []) init_best (body_lines content)"
  from assms(2) have none: "\<forall>l \<in> set (body_lines content). \<not> exact_candidate [] l"
    by (simp add: exact_candidate_empty)
  then have "filter (exact_candidate []) (body_lines content) = []"
    by (simp add: filter_empty_conv)
  with final_state(1) [of "[]" content] have ex: "bestExact ?st = []"
    by (simp add: tier_inv_def)
  from none have "filter (\<lambda>p. \<not> exact_candidate [] p \<and> partial_candidate [] p) (body_lines content)
      = body_lines content"
    by (simp add: partial_candidate_empty filter_id_conv)
  with final_state(2) [of "[]" content] assms(1)
  have fs: "first_shortest (body_lines content) (bestPartial ?st)"
    by (simp add: tier_inv_def)
  then have "bestPartial ?st \<in> set (body_lines content)" by (rule first_shortest_mem)
  with assms(2) have "bestPartial ?st \<noteq> []" by blast
  with ex have "searchDatabaseOptimized (Inr content) [] = Inr (bestPartial ?st)"
    by (simp add: search_unfold Let_def)
  with fs show ?thesis by blast
qed


section \<open>Examples of the specification and facts for single snapshots\<close>


lemma example_exact_dominates:
  "searchDatabaseOptimized (Inr (snapshot_text [''/a'', ''/a'', ''/a/foo'', ''/a/foobar''])) ''foo''
     = Inr ''/a/foo''"
proof -
  have b: "body_lines (snapshot_text [''/a'', ''/a'', ''/a/foo'', ''/a/foobar''])
      = [''/a'', ''/a/foo'', ''/a/foobar'']"
    by (simp add: body_lines_snapshot newline_def MaxScanTokenSize_def dropCR_def)
  show ?thesis unfolding search_unfold b by code_simp
qed

lemma example_shortest_exact_wins:
  "searchDatabaseOptimized (Inr (snapshot_text [''/'', ''/'', ''/a'', ''/a/x'', ''/a/x/proj'', ''/proj''])) ''proj''
     = Inr ''/proj''"
proof -
  have b: "body_lines (snapshot_text [''/'', ''/'', ''/a'', ''/a/x'', ''/a/x/proj'', ''/proj''])
      = [''/'', ''/a'', ''/a/x'', ''/a/x/proj'', ''/proj'']"
    by (simp add: body_lines_snapshot newline_def MaxScanTokenSize_def dropCR_def)
  show ?thesis unfolding search_unfold b by code_simp
qed

lemma first_shortest_head:
  assumes "\<forall>c \<in> set cs. length a \<le> length c"
  shows "first_shortest (a # cs) a"
proof -
  have "\<forall>j < length (a # cs). length a \<le> length ((a # cs) ! j)"
    using assms by (auto simp: nth_Cons split: nat.splits)
  then show ?thesis unfolding first_shortest_def by (intro exI [of _ 0]) simp
qed


lemma example_case_insensitive:
  "searchDatabaseOptimized (Inr (snapshot_text [''/r'', ''/r'', ''/r/proj''])) ''PROJ'' = Inr ''/r/proj''"
proof -
  have b: "body_lines (snapshot_text [''/r'', ''/r'', ''/r/proj'']) = [''/r'', ''/r/proj'']"
    by (simp add: body_lines_snapshot newline_def MaxScanTokenSize_def dropCR_def)
  show ?thesis unfolding search_unfold b by code_simp
qed




lemma quiet_env_simps:
  "create_err (quiet_env l) = None" "no_write_error (write_err (quiet_env l))"
  "flush_err (quiet_env l) = None" "lstat_root (quiet_env l) = l"
  by (simp_all add: quiet_env_def no_write_error_def)

section \<open>The claims\<close>

subsection \<open>Claim C1\<close>




subsection \<open>Claim C2\<close>



subsection \<open>Claim C3\<close>



subsection \<open>Claim C4\<close>



subsection \<open>Claim C5\<close>

text \<open>
  Claim C5, as amended: when the snapshot file can be written, the body lines are exactly
  the paths of the directories that the walk reaches from the root through directories it
  could read, along names none of which is \<open>.git\<close>, the name of the root entry counted as
  the first.  A directory named \<open>.git\<close> and everything below it is left out, and no other
  name excludes a directory; the elements of the root path above the root are not looked
  at.
\<close>

theorem C5_only_git_is_skipped:
  assumes "create_err env = None" and "no_write_error (write_err env)" and "flush_err env = None"
    and "lstat_root env = Inr d"
  shows "\<exists>body. generateDatabase env root = Inr (snapshot_text (root # body))
           \<and> set body = {q. \<exists>ns e. walked root d ns q e \<and> IsDir e \<and> ''.git'' \<notin> set ns}"
  using generateDatabase_ok [OF assms] by (simp add: listed_def)

theorem C5_witness:
  "create_err (quiet_env (Inr (Dir ''a'' [Dir ''.config'' [] None, Dir ''.git'' [Dir ''objects'' [] None] None] None))) = None
   \<and> no_write_error (write_err (quiet_env (Inr (Dir ''a'' [Dir ''.config'' [] None, Dir ''.git'' [Dir ''objects'' [] None] None] None))))
   \<and> flush_err (quiet_env (Inr (Dir ''a'' [Dir ''.config'' [] None, Dir ''.git'' [Dir ''objects'' [] None] None] None))) = None
   \<and> (\<exists>body. generateDatabase (quiet_env (Inr (Dir ''a'' [Dir ''.config'' [] None, Dir ''.git'' [Dir ''objects'' [] None] None] None))) ''/a''
            = Inr (snapshot_text (''/a'' # body))
         \<and> set body = {q. \<exists>ns e. walked ''/a'' (Dir ''a'' [Dir ''.config'' [] None, Dir ''.git'' [Dir ''objects'' [] None] None] None) ns q e
                               \<and> IsDir e \<and> ''.git'' \<notin> set ns})
   \<and> generateDatabase (quiet_env (Inr (Dir ''a'' [Dir ''.config'' [] None, Dir ''.git'' [Dir ''objects'' [] None] None] None))) ''/a''
       = Inr (snapshot_text [''/a'', ''/a'', ''/a/.config''])
   \<and> walked ''/a'' (Dir ''a'' [Dir ''.config'' [] None, Dir ''.git'' [Dir ''objects'' [] None] None] None)
         [''a'', ''.config''] ''/a/.config'' (Dir ''.config'' [] None)
   \<and> walked ''/a'' (Dir ''a'' [Dir ''.config'' [] None, Dir ''.git'' [Dir ''objects'' [] None] None] None)
         [''a'', ''.git'', ''objects''] ''/a/.git/objects'' (Dir ''objects'' [] None)"
proof -
  let ?t = "Dir ''a'' [Dir ''.config'' [] None, Dir ''.git'' [Dir ''objects'' [] None] None] None"
  note q = quiet_env_simps [of "Inr ?t"]
  have g: "generateDatabase (quiet_env (Inr ?t)) ''/a'' = Inr (snapshot_text [''/a'', ''/a'', ''/a/.config''])"
    by code_simp
  have j1: "Join ''/a'' ''.config'' = ''/a/.config''" by code_simp
  have j2: "Join ''/a'' ''.git'' = ''/a/.git''" by code_simp
  have j3: "Join ''/a/.git'' ''objects'' = ''/a/.git/objects''" by code_simp
  have c0: "walked ''/a/.config'' (Dir ''.config'' [] None) [''.config''] ''/a/.config'' (Dir ''.config'' [] None)"
    using walked_here [of "''/a/.config''" "Dir ''.config'' [] None"] by simp
  have w1: "walked ''/a'' ?t [''a'', ''.config''] ''/a/.config'' (Dir ''.config'' [] None)"
    by (rule walked_below [where e = "Dir ''.config'' [] None"]) (simp, simp add: j1 c0)
  have o0: "walked ''/a/.git/objects'' (Dir ''objects'' [] None) [''objects''] ''/a/.git/objects''
      (Dir ''objects'' [] None)"
    using walked_here [of "''/a/.git/objects''" "Dir ''objects'' [] None"] by simp
  have o1: "walked ''/a/.git'' (Dir ''.git'' [Dir ''objects'' [] None] None) [''.git'', ''objects'']
      ''/a/.git/objects'' (Dir ''objects'' [] None)"
    by (rule walked_below [where e = "Dir ''objects'' [] None"]) (simp, simp add: j3 o0)
  have w2: "walked ''/a'' ?t [''a'', ''.git'', ''objects''] ''/a/.git/objects'' (Dir ''objects'' [] None)"
    by (rule walked_below [where e = "Dir ''.git'' [Dir ''objects'' [] None] None"]) (simp, simp add: j2 o1)
  from C5_only_git_is_skipped [OF q(1) q(2) q(3) q(4), of "''/a''"] q g w1 w2
  show ?thesis by simp
qed

text \<open>
  The claim as it was stated fails for a root that lies inside a \<open>.git\<close> directory: the
  walk looks at the name of each entry it visits, from the root entry \<open>objects\<close> down,
  and every body line is a path under \<open>/a/.git\<close>.
\<close>

theorem C5_counterexample:
  "generateDatabase (quiet_env (Inr (Dir ''objects'' [Dir ''pack'' [] None] None))) ''/a/.git/objects''
     = Inr (snapshot_text [''/a/.git/objects'', ''/a/.git/objects'', ''/a/.git/objects/pack''])
   \<and> split_sep ''/a/.git/objects/pack'' = [[], ''a'', ''.git'', ''objects'', ''pack'']
   \<and> base_name ''/a/.git/objects/pack'' = ''pack''"
proof -
  have g: "generateDatabase (quiet_env (Inr (Dir ''objects'' [Dir ''pack'' [] None] None))) ''/a/.git/objects''
     = Inr (snapshot_text [''/a/.git/objects'', ''/a/.git/objects'', ''/a/.git/objects/pack''])"
    by code_simp
  have s: "split_sep ''/a/.git/objects/pack'' = [[], ''a'', ''.git'', ''objects'', ''pack'']"
    by code_simp
  have b: "base_name ''/a/.git/objects/pack'' = ''pack''" by code_simp
  from g s b show ?thesis by simp
qed

subsection \<open>Claim C6\<close>

text \<open>
  Claim C6, as amended: \<open>generateDatabase\<close> fails only with an error of creating, writing
  or flushing the snapshot file, and it fails when creating the file, the first write or
  the flush fails.  When the file can be written it succeeds whatever the directories
  answer: a root that cannot be accessed gives a snapshot of the header alone, and
  otherwise the body holds the directories reached through the directories that could be
  read, so a read error prunes the subtree below that directory and the walk continues.
\<close>

theorem C6_only_snapshot_file_errors_are_fatal:
  "(generateDatabase env root = Inl e \<longrightarrow>
      create_err env = Some e \<or> (\<exists>k. write_err env k = Some e) \<or> flush_err env = Some e)
   \<and> (create_err env = Some e \<longrightarrow> generateDatabase env root = Inl e)
   \<and> (create_err env = None \<and> write_err env 0 = Some e \<longrightarrow> generateDatabase env root = Inl e)
   \<and> (create_err env = None \<and> no_write_error (write_err env) \<and> flush_err env = Some e
        \<longrightarrow> generateDatabase env root = Inl e)
   \<and> (create_err env = None \<and> no_write_error (write_err env) \<and> flush_err env = None \<longrightarrow>
        (\<forall>err. lstat_root env = Inl err \<longrightarrow> generateDatabase env root = Inr (snapshot_text [root]))
      \<and> (\<forall>d. lstat_root env = Inr d \<longrightarrow>
            (\<exists>body. generateDatabase env root = Inr (snapshot_text (root # body))
               \<and> set body = {q. \<exists>ns x. walked root d ns q x \<and> IsDir x \<and> ''.git'' \<notin> set ns})))"
proof (intro conjI impI allI)
  assume "generateDatabase env root = Inl e"
  then show "create_err env = Some e \<or> (\<exists>k. write_err env k = Some e) \<or> flush_err env = Some e"
    by (rule generateDatabase_err)
next
  assume "create_err env = Some e"
  then show "generateDatabase env root = Inl e" by (simp add: generateDatabase_def)
next
  assume "create_err env = None \<and> write_err env 0 = Some e"
  then show "generateDatabase env root = Inl e"
    by (simp add: generateDatabase_def WriteString_def)
next
  assume a: "create_err env = None \<and> no_write_error (write_err env) \<and> flush_err env = Some e"
  obtain r w1 where w: "WalkDir (walkFn (write_err env)) root (lstat_root env) [root @ [newline]] = (r, w1)"
    by fastforce
  have "r = None"
  proof (cases r)
    case (Some x)
    with w have "\<exists>k. write_err env k = Some x" using WalkDir_err by blast
    with a show ?thesis by (simp add: no_write_error_def)
  qed simp
  with a w show "generateDatabase env root = Inl e"
    by (simp add: generateDatabase_def WriteString_def no_write_error_def)
next
  fix err
  assume "create_err env = None \<and> no_write_error (write_err env) \<and> flush_err env = None"
    and "lstat_root env = Inl err"
  then show "generateDatabase env root = Inr (snapshot_text [root])"
    using generateDatabase_lstat_error by blast
next
  fix d
  assume "create_err env = None \<and> no_write_error (write_err env) \<and> flush_err env = None"
    and "lstat_root env = Inr d"
  then show "\<exists>body. generateDatabase env root = Inr (snapshot_text (root # body))
               \<and> set body = {q. \<exists>ns x. walked root d ns q x \<and> IsDir x \<and> ''.git'' \<notin> set ns}"
    using generateDatabase_ok [of env d root] by (simp add: listed_def)
qed

theorem C6_witness:
  "create_err (quiet_env (Inr (Dir ''r'' [Dir ''locked'' [Dir ''inner'' [] None] (Some (Err ''permission denied'')),
        Dir ''open'' [] None] None))) = None
   \<and> no_write_error (write_err (quiet_env (Inr (Dir ''r'' [Dir ''locked'' [Dir ''inner'' [] None] (Some (Err ''permission denied'')),
        Dir ''open'' [] None] None))))
   \<and> flush_err (quiet_env (Inr (Dir ''r'' [Dir ''locked'' [Dir ''inner'' [] None] (Some (Err ''permission denied'')),
        Dir ''open'' [] None] None))) = None
   \<and> (\<exists>body. generateDatabase (quiet_env (Inr (Dir ''r'' [Dir ''locked'' [Dir ''inner'' [] None] (Some (Err ''permission denied'')),
        Dir ''open'' [] None] None))) ''/r'' = Inr (snapshot_text (''/r'' # body)))
   \<and> generateDatabase (quiet_env (Inr (Dir ''r'' [Dir ''locked'' [Dir ''inner'' [] None] (Some (Err ''permission denied'')),
        Dir ''open'' [] None] None))) ''/r''
       = Inr (snapshot_text [''/r'', ''/r'', ''/r/locked'', ''/r/open''])
   \<and> generateDatabase (quiet_env (Inl (Err ''no such file or directory''))) ''/nonexistent''
       = Inr (snapshot_text [''/nonexistent''])"
proof -
  let ?t = "Dir ''r'' [Dir ''locked'' [Dir ''inner'' [] None] (Some (Err ''permission denied'')),
        Dir ''open'' [] None] None"
  note q = quiet_env_simps [of "Inr ?t"]
  note q' = quiet_env_simps [of "Inl (Err ''no such file or directory'')"]
  have g: "generateDatabase (quiet_env (Inr ?t)) ''/r''
      = Inr (snapshot_text [''/r'', ''/r'', ''/r/locked'', ''/r/open''])"
    by code_simp
  from C6_only_snapshot_file_errors_are_fatal [of "quiet_env (Inr ?t)" "''/r''" SkipDir] q
  have e: "\<exists>body. generateDatabase (quiet_env (Inr ?t)) ''/r'' = Inr (snapshot_text (''/r'' # body))"
    by blast
  from C6_only_snapshot_file_errors_are_fatal
    [of "quiet_env (Inl (Err ''no such file or directory''))" "''/nonexistent''" SkipDir] q'
  have n: "generateDatabase (quiet_env (Inl (Err ''no such file or directory''))) ''/nonexistent''
       = Inr (snapshot_text [''/nonexistent''])"
    by blast
  from q g e n show ?thesis by simp
qed

text \<open>
  The claim as it was stated fails: when the root does not exist, \<open>os.Lstat\<close> fails, the
  callback answers the error with \<open>SkipDir\<close>, and \<open>generateDatabase\<close> succeeds with a
  snapshot of the header alone.  A root that exists and cannot be read gives the header
  and the root line.
\<close>

theorem C6_counterexample:
  "generateDatabase (quiet_env (Inl (Err ''lstat /nonexistent: no such file or directory''))) ''/nonexistent''
     = Inr (snapshot_text [''/nonexistent''])
   \<and> generateDatabase (quiet_env (Inr (Dir ''secret'' [] (Some (Err ''open /secret: permission denied''))))) ''/secret''
     = Inr (snapshot_text [''/secret'', ''/secret''])"
proof -
  have 1: "generateDatabase (quiet_env (Inl (Err ''lstat /nonexistent: no such file or directory''))) ''/nonexistent''
     = Inr (snapshot_text [''/nonexistent''])"
    by code_simp
  have 2: "generateDatabase (quiet_env (Inr (Dir ''secret'' [] (Some (Err ''open /secret: permission denied''))))) ''/secret''
     = Inr (snapshot_text [''/secret'', ''/secret''])"
    by code_simp
  from 1 2 show ?thesis by simp
qed

subsection \<open>Claim C7\<close>



subsection \<open>Claim C8\<close>



subsection \<open>Claim C9\<close>



subsection \<open>Claim C10\<close>

text \<open>
  Claim C10, as amended: for the empty term, against a snapshot whose body is not empty
  and has no line that is empty or ends in a path separator, the resolver does not fail:
  no line is an exact candidate, every line is a partial candidate, and the first
  shortest body line is returned.
\<close>

theorem C10_empty_term_returns_shortest_line:
  assumes "body_lines content \<noteq> []"
    and "\<forall>l \<in> set (body_lines content). l \<noteq> [] \<and> \<not> ends_in_separator l"
  shows "\<exists>r. searchDatabaseOptimized (Inr content) [] = Inr r
           \<and> first_shortest (body_lines content) r
           \<and> filter (exact_candidate []) (body_lines content) = []
           \<and> filter (partial_candidate []) (body_lines content) = body_lines content"
proof -
  from assms(2) have "filter (exact_candidate []) (body_lines content) = []"
    by (simp add: filter_empty_conv exact_candidate_empty)
  moreover have "filter (partial_candidate []) (body_lines content) = body_lines content"
    by (simp add: partial_candidate_empty)
  ultimately show ?thesis using resolve_empty_term [OF assms] by blast
qed

theorem C10_witness:
  "body_lines (snapshot_text [''/r'', ''/r'', ''/r/ab'', ''/r/c'', ''/r/d'']) = [''/r'', ''/r/ab'', ''/r/c'', ''/r/d'']
   \<and> \<not> ends_in_separator ''/r'' \<and> \<not> ends_in_separator ''/r/ab''
   \<and> \<not> ends_in_separator ''/r/c'' \<and> \<not> ends_in_separator ''/r/d''
   \<and> searchDatabaseOptimized (Inr (snapshot_text [''/r'', ''/r'', ''/r/ab'', ''/r/c'', ''/r/d''])) [] = Inr ''/r''"
proof -
  let ?c = "snapshot_text [''/r'', ''/r'', ''/r/ab'', ''/r/c'', ''/r/d'']"
  have b: "body_lines ?c = [''/r'', ''/r/ab'', ''/r/c'', ''/r/d'']"
    by (simp add: body_lines_snapshot newline_def MaxScanTokenSize_def dropCR_def)
  have s: "\<not> ends_in_separator ''/r'' \<and> \<not> ends_in_separator ''/r/ab''
      \<and> \<not> ends_in_separator ''/r/c'' \<and> \<not> ends_in_separator ''/r/d''"
    by (simp add: ends_in_separator_def)
  have h1: "body_lines ?c \<noteq> []" by (simp add: b)
  have h2: "\<forall>l \<in> set (body_lines ?c). l \<noteq> [] \<and> \<not> ends_in_separator l"
    by (simp add: b ends_in_separator_def)
  from C10_empty_term_returns_shortest_line [OF h1 h2] obtain r where
    r: "searchDatabaseOptimized (Inr ?c) [] = Inr r" and "first_shortest (body_lines ?c) r"
    by blast
  then have "first_shortest (''/r'' # [''/r/ab'', ''/r/c'', ''/r/d'']) r" by (simp add: b)
  moreover have "first_shortest (''/r'' # [''/r/ab'', ''/r/c'', ''/r/d'']) ''/r''"
    by (intro first_shortest_head) simp
  ultimately have "r = ''/r''" by (rule first_shortest_unique)
  with r b s show ?thesis by simp
qed

text \<open>
  The claim as it was stated fails on an empty body line.  An empty line does not end in
  a separator; its base name is empty and equals the empty term, so the line is taken
  into the exact tier, where the empty string stands for "nothing found".  With the
  empty line alone the resolver fails; with a longer line after it the longer line is
  returned, not the shortest.
\<close>

theorem C10_counterexample:
  "body_lines (snapshot_text [''/r'', [], ''/r/ab'']) = [[], ''/r/ab'']
   \<and> \<not> ends_in_separator [] \<and> \<not> ends_in_separator ''/r/ab''
   \<and> searchDatabaseOptimized (Inr (snapshot_text [''/r'', [], ''/r/ab''])) [] = Inr ''/r/ab''
   \<and> length ([] :: string) < length ''/r/ab''
   \<and> body_lines (snapshot_text [''/r'', []]) = [[]]
   \<and> searchDatabaseOptimized (Inr (snapshot_text [''/r'', []])) [] = Inl (Err ''directory not found: '')"
proof -
  have b1: "body_lines (snapshot_text [''/r'', [], ''/r/ab'']) = [[], ''/r/ab'']"
    by (simp add: body_lines_snapshot newline_def MaxScanTokenSize_def dropCR_def)
  have b2: "body_lines (snapshot_text [''/r'', []]) = [[]]"
    by (simp add: body_lines_snapshot newline_def MaxScanTokenSize_def dropCR_def)
  have s1: "searchDatabaseOptimized (Inr (snapshot_text [''/r'', [], ''/r/ab''])) [] = Inr ''/r/ab''"
    unfolding search_unfold b1 by code_simp
  have s2: "searchDatabaseOptimized (Inr (snapshot_text [''/r'', []])) []
      = Inl (Err ''directory not found: '')"
    unfolding search_unfold b2 by code_simp
  from b1 b2 s1 s2 show ?thesis by (simp add: ends_in_separator_def)
qed

end
